theory Spec2Isabelle
  imports Main "HOL-Library.Sublist"
begin

section \<open>Strings and the string library\<close>

text \<open>
  A Python \<open>str\<close> is a sequence of Unicode code points, so a string is a list of
  code points here and \<open>u\<close> turns a literal into one. \<open>prefix\<close> and \<open>sublist\<close>
  (the contiguous one) are \<open>str.startswith\<close> and \<open>in\<close>.
\<close>

type_synonym pystr = "nat list"

definition u :: "string \<Rightarrow> pystr" where
  "u s = map of_char s"

text \<open>
  \<open>str.isspace\<close> of one character, which is also the class \<open>\s\<close> of a \<open>str\<close> pattern:
  the ASCII controls 9 to 13 and 28 to 31, the space, and the Unicode white space.
\<close>

definition is_space :: "nat \<Rightarrow> bool" where
  "is_space c \<longleftrightarrow>
     (9 \<le> c \<and> c \<le> 13) \<or> (28 \<le> c \<and> c \<le> 32) \<or> c = 133 \<or> c = 160 \<or> c = 5760 \<or>
     (8192 \<le> c \<and> c \<le> 8202) \<or> c = 8232 \<or> c = 8233 \<or> c = 8239 \<or> c = 8287 \<or>
     c = 12288"

text \<open>\<open>s.strip()\<close> and \<open>s.rstrip("/")\<close>.\<close>

definition strip :: "pystr \<Rightarrow> pystr" where
  "strip s = rev (dropWhile is_space (rev (dropWhile is_space s)))"

definition rstrip_slash :: "pystr \<Rightarrow> pystr" where
  "rstrip_slash s = rev (dropWhile (\<lambda>c. c = 47) (rev s))"

text \<open>
  \<open>s.replace(old, new)\<close> for a non-empty \<open>old\<close>: every occurrence found scanning from
  the left is replaced, and the scan goes on behind the occurrence. The only call of
  the program has the constant marker as \<open>old\<close>.
\<close>

function str_replace :: "pystr \<Rightarrow> pystr \<Rightarrow> pystr \<Rightarrow> pystr" where
  "str_replace old new [] = []"
| "str_replace old new (c # cs) =
     (if old \<noteq> [] \<and> prefix old (c # cs)
      then new @ str_replace old new (drop (length old) (c # cs))
      else c # str_replace old new cs)"
  by pat_completeness auto
termination
  by (relation "measure (\<lambda>(old, new, s). length s)") auto

text \<open>\<open>sep.join(xs)\<close>.\<close>

fun join :: "pystr \<Rightarrow> pystr list \<Rightarrow> pystr" where
  "join sep [] = []"
| "join sep [x] = x"
| "join sep (x # y # ys) = x @ sep @ join sep (y # ys)"

text \<open>\<open>xs.insert(i, x)\<close> for \<open>i \<ge> 0\<close>: an index behind the end appends.\<close>

definition list_insert :: "nat \<Rightarrow> 'a \<Rightarrow> 'a list \<Rightarrow> 'a list" where
  "list_insert i x xs = take i xs @ x # drop i xs"

text \<open>\<open>str(n)\<close> of a non-negative integer: its decimal digits, without leading zero.\<close>

function str_of_nat :: "nat \<Rightarrow> pystr" where
  "str_of_nat n = (if n < 10 then [48 + n] else str_of_nat (n div 10) @ [48 + n mod 10])"
  by pat_completeness auto
termination
  by (relation "measure id") auto

declare str_of_nat.simps [simp del]

text \<open>
  \<open>html.escape(s)\<close> with its default \<open>quote=True\<close>: the ampersand is replaced first,
  so no replacement touches the text another one produced, and the result is the
  character-wise substitution.
\<close>

definition escape_char :: "nat \<Rightarrow> pystr" where
  "escape_char c =
     (if c = 38 then u ''&amp;''
      else if c = 60 then u ''&lt;''
      else if c = 62 then u ''&gt;''
      else if c = 34 then u ''&quot;''
      else if c = 39 then u ''&#x27;''
      else [c])"

definition html_escape :: "pystr \<Rightarrow> pystr" where
  "html_escape s = concat (map escape_char s)"

section \<open>The regular expression of the removal\<close>

text \<open>
  The pattern of \<open>remove_existing_item\<close> is a sequence of three kinds of pieces: a
  literal (also what \<open>re.escape\<close> makes of the version), the greedy \<open>\s*\<close> and the lazy
  \<open>.*?\<close>, which under \<open>re.DOTALL\<close> takes every character. \<open>rmatch\<close> is the backtracking
  matcher of \<open>re\<close> on such a sequence: it returns the text behind the first match in
  the order in which the engine tries the alternatives, the longer run first for the
  greedy piece and the shorter first for the lazy one.
\<close>

datatype rx = Lit pystr | SpaceStar | AnyLazy

fun rmatch :: "rx list \<Rightarrow> pystr \<Rightarrow> pystr option" where
  "rmatch [] s = Some s"
| "rmatch (Lit l # ps) s =
     (if prefix l s then rmatch ps (drop (length l) s) else None)"
| "rmatch (SpaceStar # ps) [] = rmatch ps []"
| "rmatch (SpaceStar # ps) (c # cs) =
     (if is_space c
      then (case rmatch (SpaceStar # ps) cs of
              Some r \<Rightarrow> Some r
            | None \<Rightarrow> rmatch ps (c # cs))
      else rmatch ps (c # cs))"
| "rmatch (AnyLazy # ps) [] = rmatch ps []"
| "rmatch (AnyLazy # ps) (c # cs) =
     (case rmatch ps (c # cs) of
        Some r \<Rightarrow> Some r
      | None \<Rightarrow> rmatch (AnyLazy # ps) cs)"

text \<open>
  \<open>re.sub(pattern, "", s)\<close>: the leftmost match at or behind the current position is
  cut out and the scan goes on behind it; where nothing matches the character is
  kept. An empty match is replaced by the empty string, which leaves the character
  in place as well.
\<close>

function re_sub_empty :: "rx list \<Rightarrow> pystr \<Rightarrow> pystr" where
  "re_sub_empty ps [] = []"
| "re_sub_empty ps (c # cs) =
     (case rmatch ps (c # cs) of
        None \<Rightarrow> c # re_sub_empty ps cs
      | Some r \<Rightarrow>
          if length r < Suc (length cs) then re_sub_empty ps r
          else c # re_sub_empty ps cs)"
  by pat_completeness auto
termination
  by (relation "measure (\<lambda>(ps, s). length s)") auto

section \<open>The document update\<close>

definition sparkle_version_field :: "pystr \<Rightarrow> pystr" where
  "sparkle_version_field version = u ''<sparkle:version>'' @ version @ u ''</sparkle:version>''"

definition item_pattern :: "pystr \<Rightarrow> rx list" where
  "item_pattern version =
     [SpaceStar, Lit (u ''<item>''), SpaceStar, Lit (u ''<title>App Detective ''), AnyLazy,
      Lit (u ''<sparkle:version>'' @ version @ u ''</sparkle:version>''), AnyLazy,
      Lit (u ''</item>'')]"

definition remove_existing_item :: "pystr \<Rightarrow> pystr \<Rightarrow> pystr" where
  "remove_existing_item contents version = re_sub_empty (item_pattern version) contents"

text \<open>
  The exceptions the program can meet: \<open>sys.exit(n)\<close>, \<open>SystemExit\<close> with a message,
  \<open>FileNotFoundError\<close>, any other \<open>OSError\<close>, and \<open>UnicodeDecodeError\<close>, which is a
  \<open>ValueError\<close> and no \<open>OSError\<close>.
\<close>

datatype exn = SysExit nat | SysExitMsg pystr | FileNotFoundErr | OSErr | UnicodeDecodeErr

definition marker :: pystr where
  "marker = u ''</channel>''"

definition append_item :: "pystr \<Rightarrow> pystr \<Rightarrow> exn + pystr" where
  "append_item contents item =
     (if \<not> sublist marker contents
      then Inl (SysExitMsg (u ''Malformed appcast: missing </channel> marker''))
      else Inr (str_replace marker (item @ u ''\<newline>  '' @ marker) contents))"

section \<open>Paths and the file system\<close>

text \<open>
  What \<open>pathlib\<close> and the platform do is a parameter of the model: \<open>Path(s)\<close>, the
  operator \<open>/\<close>, \<open>p.parent\<close>, the sequence \<open>p.parents\<close>, \<open>str(p)\<close> and the size a new
  directory reports. Every theorem below holds for each choice of them.
\<close>

record 'p platform =
  Path :: "pystr \<Rightarrow> 'p"
  joinpath :: "'p \<Rightarrow> pystr \<Rightarrow> 'p"
  parent :: "'p \<Rightarrow> 'p"
  parents :: "'p \<Rightarrow> 'p list"
  path_str :: "'p \<Rightarrow> pystr"
  new_dir_size :: nat

text \<open>
  A file system maps a path to what is there: a directory or a file, each with the
  size \<open>stat\<close> reports; a file also has what \<open>read_text(encoding="utf-8")\<close> yields on
  it: the decoded text, an \<open>OSError\<close> (no permission, an I/O error) or a
  \<open>UnicodeDecodeError\<close>. Failures of the operating system other than these are
  outside the model.
\<close>

datatype read_result = Decoded pystr | ReadOSErr | ReadDecodeErr

datatype node = Dir nat | File nat read_result

type_synonym 'p fs = "'p \<Rightarrow> node option"

definition path_exists :: "'p fs \<Rightarrow> 'p \<Rightarrow> bool" where
  "path_exists fs p \<longleftrightarrow> fs p \<noteq> None"

definition is_file :: "'p fs \<Rightarrow> 'p \<Rightarrow> bool" where
  "is_file fs p \<longleftrightarrow> (case fs p of Some (File n r) \<Rightarrow> True | _ \<Rightarrow> False)"

definition stat_size :: "'p fs \<Rightarrow> 'p \<Rightarrow> exn + nat" where
  "stat_size fs p =
     (case fs p of
        None \<Rightarrow> Inl FileNotFoundErr
      | Some (Dir n) \<Rightarrow> Inr n
      | Some (File n r) \<Rightarrow> Inr n)"

definition read_text :: "'p fs \<Rightarrow> 'p \<Rightarrow> exn + pystr" where
  "read_text fs p =
     (case fs p of
        None \<Rightarrow> Inl FileNotFoundErr
      | Some (Dir n) \<Rightarrow> Inl OSErr
      | Some (File n (Decoded t)) \<Rightarrow> Inr t
      | Some (File n ReadOSErr) \<Rightarrow> Inl OSErr
      | Some (File n ReadDecodeErr) \<Rightarrow> Inl UnicodeDecodeErr)"

definition utf8_len :: "pystr \<Rightarrow> nat" where
  "utf8_len t =
     sum_list (map (\<lambda>c. if c < 128 then 1 else if c < 2048 then 2
                          else if c < 65536 then 3 else 4) t)"

text \<open>
  \<open>p.write_text(t, encoding="utf-8")\<close> replaces a file, creates one in a directory
  that exists, and fails on a directory or where the parent is missing.
\<close>

definition write_text :: "'p platform \<Rightarrow> 'p fs \<Rightarrow> 'p \<Rightarrow> pystr \<Rightarrow> exn + 'p fs" where
  "write_text P fs p t =
     (case fs p of
        Some (Dir n) \<Rightarrow> Inl OSErr
      | Some (File n r) \<Rightarrow> Inr (fs(p \<mapsto> File (utf8_len t) (Decoded t)))
      | None \<Rightarrow>
          (case fs (parent P p) of
             Some (Dir n) \<Rightarrow> Inr (fs(p \<mapsto> File (utf8_len t) (Decoded t)))
           | Some (File n r) \<Rightarrow> Inl OSErr
           | None \<Rightarrow> Inl FileNotFoundErr))"

text \<open>
  \<open>d.mkdir(parents=True, exist_ok=True)\<close>: the directory and its missing ancestors
  are created; a file on the way is an error and nothing is created.
\<close>

definition mkdir_parents :: "'p platform \<Rightarrow> 'p fs \<Rightarrow> 'p \<Rightarrow> exn + 'p fs" where
  "mkdir_parents P fs d =
     (if list_ex (is_file fs) (d # parents P d) then Inl OSErr
      else Inr (\<lambda>q. if q \<in> set (d # parents P d) \<and> fs q = None
                     then Some (Dir (new_dir_size P)) else fs q))"

section \<open>The steps of the program\<close>

definition base_template :: "pystr \<Rightarrow> pystr" where
  \<open>base_template base_link =
     u ''<?xml version="1.0" encoding="UTF-8"?>\<newline><rss xmlns:sparkle="http://www.andymatuschak.org/xml-namespaces/sparkle" version="2.0">\<newline>  <channel>\<newline>    <title>App Detective Updates</title>\<newline>    <link>''
     @ base_link
     @ u ''</link>\<newline>    <description>Release notes and downloads for App Detective.</description>\<newline>    <language>en</language>\<newline>  </channel>\<newline></rss>\<newline>''\<close>

definition ensure_base_appcast :: "'p platform \<Rightarrow> 'p fs \<Rightarrow> 'p \<Rightarrow> pystr \<Rightarrow> exn + 'p fs" where
  "ensure_base_appcast P fs appcast_path download_base =
     (if path_exists fs appcast_path then Inr fs
      else
        let base_link = rstrip_slash download_base @ u ''/appcast.xml'';
            template = base_template base_link
        in case mkdir_parents P fs (parent P appcast_path) of
             Inl e \<Rightarrow> Inl e
           | Inr fs' \<Rightarrow> write_text P fs' appcast_path template)"

text \<open>
  \<open>file_size_string\<close> prints its diagnostic on the error stream before it exits: the
  failure carries the lines printed.
\<close>

definition file_size_string :: "'p platform \<Rightarrow> 'p fs \<Rightarrow> 'p \<Rightarrow> (pystr list \<times> exn) + pystr" where
  "file_size_string P fs zip_path =
     (case stat_size fs zip_path of
        Inl FileNotFoundErr \<Rightarrow>
          Inl ([u ''Zip file not found at '' @ path_str P zip_path], SysExit 1)
      | Inl e \<Rightarrow> Inl ([], e)
      | Inr sz \<Rightarrow> Inr (str_of_nat sz))"

definition default_notes :: pystr where
  "default_notes = u ''<p>Bug fixes and improvements.</p>''"

definition load_notes :: "'p fs \<Rightarrow> 'p option \<Rightarrow> exn + pystr" where
  "load_notes fs notes_path =
     (case notes_path of
        None \<Rightarrow> Inr default_notes
      | Some p \<Rightarrow>
          if \<not> path_exists fs p then Inr default_notes
          else
            (case read_text fs p of
               Inl FileNotFoundErr \<Rightarrow> Inr default_notes
             | Inl OSErr \<Rightarrow> Inr default_notes
             | Inl e \<Rightarrow> Inl e
             | Inr raw \<Rightarrow>
                 if strip raw = [] then Inr default_notes
                 else Inr (u ''<pre>\<newline>'' @ html_escape raw @ u ''\<newline></pre>'')))"

text \<open>
  \<open>build_item\<close> reads the clock through \<open>rfc822_now\<close>; the formatted time is the
  argument \<open>pub_date\<close> here. The dictionary of signatures is a map, and a value
  counts when it is there and not empty.
\<close>

definition enclosure_attrs :: "pystr \<Rightarrow> pystr \<Rightarrow> (pystr \<rightharpoonup> pystr) \<Rightarrow> pystr list" where
  \<open>enclosure_attrs download_url file_size signatures =
     (let a0 = [u ''url="'' @ download_url @ u ''"'',
                u ''sparkle:os="macos"'',
                u ''length="'' @ file_size @ u ''"'',
                u ''type="application/octet-stream"''];
          a1 = (case signatures (u ''ed25519'') of
                  None \<Rightarrow> a0
                | Some sig \<Rightarrow>
                    if sig = [] then a0
                    else list_insert 1 (u ''sparkle:edSignature="'' @ sig @ u ''"'') a0)
      in case signatures (u ''ed25519sha3'') of
           None \<Rightarrow> a1
         | Some sig31 \<Rightarrow>
             if sig31 = [] then a1
             else list_insert 2 (u ''sparkle:edSignature31="'' @ sig31 @ u ''"'') a1)\<close>

definition build_item ::
  "pystr \<Rightarrow> pystr \<Rightarrow> pystr \<Rightarrow> pystr \<Rightarrow> pystr \<Rightarrow> pystr \<Rightarrow> (pystr \<rightharpoonup> pystr) \<Rightarrow> pystr \<Rightarrow> pystr" where
  \<open>build_item version short_version download_url file_size notes min_system signatures pub_date =
     (let enclosure = join (u ''\<newline>        '') (enclosure_attrs download_url file_size signatures)
      in u ''    <item>\<newline>      <title>App Detective '' @ short_version
       @ u ''</title>\<newline>      <description>\<newline>        <![CDATA[\<newline>        '' @ notes
       @ u ''\<newline>        ]]>\<newline>      </description>\<newline>      <pubDate>'' @ pub_date
       @ u ''</pubDate>\<newline>      <sparkle:version>'' @ version
       @ u ''</sparkle:version>\<newline>      <sparkle:shortVersionString>'' @ short_version
       @ u ''</sparkle:shortVersionString>\<newline>      <enclosure\<newline>        '' @ enclosure
       @ u ''\<newline>      />\<newline>      <sparkle:minimumSystemVersion>'' @ min_system
       @ u ''</sparkle:minimumSystemVersion>\<newline>    </item>\<newline>'')\<close>

section \<open>The run\<close>

record args =
  version :: pystr
  dist_dir :: pystr
  update_dir :: pystr
  download_base :: pystr
  min_system_version :: pystr
  notes_file :: pystr

text \<open>
  What a run leaves: the file system, the lines printed on the two streams, and the
  exception that ended it, if one did. A \<open>SystemExit\<close> with a message has the
  interpreter print the message on the error stream and exit with status 1, as every
  exception nobody catches does; \<open>sys.exit(n)\<close> exits with \<open>n\<close>.
\<close>

record 'p run =
  fs_after :: "'p fs"
  stdout :: "pystr list"
  stderr :: "pystr list"
  raised :: "exn option"

definition exit_status :: "'p run \<Rightarrow> nat" where
  "exit_status r = (case raised r of None \<Rightarrow> 0 | Some (SysExit n) \<Rightarrow> n | Some e \<Rightarrow> 1)"

definition stderr_at_exit :: "'p run \<Rightarrow> pystr list" where
  "stderr_at_exit r = stderr r @ (case raised r of Some (SysExitMsg m) \<Rightarrow> [m] | _ \<Rightarrow> [])"

definition failed :: "'p fs \<Rightarrow> pystr list \<Rightarrow> exn \<Rightarrow> 'p run" where
  "failed fs errs e = \<lparr>fs_after = fs, stdout = [], stderr = errs, raised = Some e\<rparr>"

text \<open>Lines 90 to 96 of \<open>main\<close>: which notes file is read, if any.\<close>

definition resolve_notes_path :: "'p platform \<Rightarrow> 'p fs \<Rightarrow> args \<Rightarrow> 'p option" where
  "resolve_notes_path P fs a =
     (if strip (notes_file a) \<noteq> [] then Some (Path P (notes_file a))
      else
        let fallback = joinpath P (joinpath P (Path P (update_dir a)) (u ''notes''))
                         (version a @ u ''.md'')
        in if path_exists fs fallback then Some fallback else None)"

text \<open>Lines 103 to 107 of \<open>main\<close>: the signatures the environment gives.\<close>

definition signatures_of_env :: "(pystr \<rightharpoonup> pystr) \<Rightarrow> (pystr \<rightharpoonup> pystr)" where
  "signatures_of_env env =
     (let s0 = Map.empty;
          s1 = (case env (u ''SIGNATURE'') of
                  None \<Rightarrow> s0
                | Some sig \<Rightarrow> if sig = [] then s0 else s0(u ''ed25519'' \<mapsto> sig))
      in case env (u ''SIGNATURE31'') of
           None \<Rightarrow> s1
         | Some sig31 \<Rightarrow> if sig31 = [] then s1 else s1(u ''ed25519sha3'' \<mapsto> sig31))"

definition env_get :: "(pystr \<rightharpoonup> pystr) \<Rightarrow> pystr \<Rightarrow> pystr \<Rightarrow> pystr" where
  "env_get env k d = (case env k of None \<Rightarrow> d | Some v \<Rightarrow> v)"

definition zip_path_of :: "'p platform \<Rightarrow> args \<Rightarrow> 'p" where
  "zip_path_of P a = joinpath P (Path P (dist_dir a)) (u ''AppDetective-'' @ version a @ u ''.zip'')"

definition appcast_path_of :: "'p platform \<Rightarrow> args \<Rightarrow> 'p" where
  "appcast_path_of P a = joinpath P (Path P (update_dir a)) (u ''appcast.xml'')"

text \<open>The item \<open>main\<close> composes from its inputs once the size and the notes are known.\<close>

definition main_item :: "(pystr \<rightharpoonup> pystr) \<Rightarrow> pystr \<Rightarrow> args \<Rightarrow> pystr \<Rightarrow> pystr \<Rightarrow> pystr" where
  "main_item env now a notes_html file_size =
     build_item (version a) (env_get env (u ''SHORT_VERSION'') (version a))
       (rstrip_slash (download_base a) @ u ''/AppDetective-'' @ version a @ u ''.zip'')
       file_size notes_html
       (env_get env (u ''MIN_SYSTEM_VERSION'') (min_system_version a))
       (signatures_of_env env) now"

text \<open>
  \<open>main\<close>, with the environment, the clock reading and the file system it starts on.
\<close>

definition main :: "'p platform \<Rightarrow> (pystr \<rightharpoonup> pystr) \<Rightarrow> pystr \<Rightarrow> 'p fs \<Rightarrow> args \<Rightarrow> 'p run" where
  "main P env now fs a =
     (let zip_path = zip_path_of P a;
          appcast_path = appcast_path_of P a
      in case ensure_base_appcast P fs appcast_path (download_base a) of
           Inl e \<Rightarrow> failed fs [] e
         | Inr fs1 \<Rightarrow>
             (case load_notes fs1 (resolve_notes_path P fs1 a) of
                Inl e \<Rightarrow> failed fs1 [] e
              | Inr notes_html \<Rightarrow>
                  (case file_size_string P fs1 zip_path of
                     Inl (errs, e) \<Rightarrow> failed fs1 errs e
                   | Inr file_size \<Rightarrow>
                       (case read_text fs1 appcast_path of
                          Inl e \<Rightarrow> failed fs1 [] e
                        | Inr contents \<Rightarrow>
                            (case append_item (remove_existing_item contents (version a))
                                    (main_item env now a notes_html file_size) of
                               Inl e \<Rightarrow> failed fs1 [] e
                             | Inr updated \<Rightarrow>
                                 (case write_text P fs1 appcast_path updated of
                                    Inl e \<Rightarrow> failed fs1 [] e
                                  | Inr fs2 \<Rightarrow>
                                      \<lparr>fs_after = fs2,
                                       stdout = [u ''Updated appcast at '' @ path_str P appcast_path
                                                 @ u '' with version '' @ version a],
                                       stderr = [],
                                       raised = None\<rparr>))))))"

section \<open>Notions used to state the properties\<close>

text \<open>
  The number of places of a text at which a given text starts, the value of a string
  of decimal digits (what \<open>int(s)\<close> reads), and a platform on which a path is its
  string, with \<open>/\<close> as the separator: the concrete inputs below live on it.
\<close>

fun occurrences :: "pystr \<Rightarrow> pystr \<Rightarrow> nat" where
  "occurrences x [] = (if x = [] then 1 else 0)"
| "occurrences x (c # cs) = (if prefix x (c # cs) then 1 else 0) + occurrences x cs"


definition str_platform :: "pystr platform" where
  "str_platform =
     \<lparr>Path = (\<lambda>s. s),
      joinpath = (\<lambda>p s. p @ [47] @ s),
      parent = (\<lambda>p. rev (tl (dropWhile (\<lambda>c. c \<noteq> 47) (rev p)))),
      parents = (\<lambda>p. [take k p. k \<leftarrow> rev [0..<length p], p ! k = 47]),
      path_str = (\<lambda>p. p),
      new_dir_size = 4096\<rparr>"

text \<open>Inputs of the concrete runs below.\<close>

definition ex_args :: args where
  "ex_args =
     \<lparr>version = u ''2.3.0'', dist_dir = u ''dist'', update_dir = u ''updates'',
      download_base = u ''https://example.org/dl/'', min_system_version = u ''13.0'',
      notes_file = []\<rparr>"



definition ex_fs_malformed :: "pystr fs" where
  "ex_fs_malformed =
     [u ''updates'' \<mapsto> Dir 4096,
      u ''updates/appcast.xml'' \<mapsto> File 11 (Decoded (u ''<rss></rss>'')),
      u ''dist/AppDetective-2.3.0.zip'' \<mapsto> File 5242880 ReadDecodeErr]"


text \<open>
  A fresh fragment for version 2.0, a document with an entry for 2.0 in the layout of
  the program, one whose entry has another product name in its title, and one with an
  entry for 1.0 in front of the entry for 2.0.
\<close>

definition ex_item :: pystr where
  "ex_item =
     build_item (u ''2.0'') (u ''2.0'') (u ''https://example.org/dl/AppDetective-2.0.zip'')
       (u ''7'') default_notes (u ''13.0'') Map.empty (u ''Mon, 01 Jan 2024 00:00:00 +0000'')"

definition ex_doc_own :: pystr where
  "ex_doc_own =
     u ''<rss>\<newline>  <channel>'' @ u ''\<newline>    <item>'' @ u ''\<newline>      ''
     @ u ''<title>App Detective '' @ u ''2.0</title>\<newline>      ''
     @ sparkle_version_field (u ''2.0'') @ u ''\<newline>    '' @ u ''</item>''
     @ u ''\<newline>  '' @ marker @ u ''\<newline></rss>\<newline>''"

definition ex_doc_foreign :: pystr where
  "ex_doc_foreign =
     u ''<rss>\<newline>  <channel>\<newline>    <item>\<newline>      <title>Detective 2.0</title>\<newline>      <sparkle:version>2.0</sparkle:version>\<newline>    </item>\<newline>  </channel>\<newline></rss>\<newline>''"

definition ex_doc_two :: pystr where
  "ex_doc_two =
     u ''<rss>\<newline>  <channel>\<newline>    <item>\<newline>      <title>App Detective 1.0</title>\<newline>      <sparkle:version>1.0</sparkle:version>\<newline>    </item>\<newline>    <item>\<newline>      <title>App Detective 2.0</title>\<newline>      <sparkle:version>2.0</sparkle:version>\<newline>    </item>\<newline>  </channel>\<newline></rss>\<newline>''"

section \<open>Facts about the string library\<close>

lemma u_simps: "u [] = []" "u (c # cs) = of_char c # u cs" "u (a @ b) = u a @ u b"
  by (simp_all add: u_def)

lemma str_replace_absent: "\<not> sublist old s \<Longrightarrow> str_replace old new s = s"
proof (induction s)
  case Nil
  then show ?case by simp
next
  case (Cons c cs)
  then have "\<not> prefix old (c # cs)" and "\<not> sublist old cs"
    by (auto simp: sublist_Cons_right)
  with Cons.IH show ?case by simp
qed

lemma prefix_in_front:
  assumes "prefix old (p @ old @ r)" and "p \<noteq> []"
  shows "sublist old (p @ butlast old)"
proof -
  have "length old \<le> length (p @ butlast old)"
    using assms(2) by (cases p) auto
  moreover have "p @ old @ r = (p @ butlast old) @ (drop (length old - 1) old @ r)"
    by (cases "old = []") (simp_all add: butlast_conv_take)
  ultimately have "prefix old (p @ butlast old)"
    using assms(1) by (metis prefix_length_prefix append_prefixD prefixI prefix_order.order_refl prefix_append)
  then show ?thesis by auto
qed

lemma str_replace_first:
  assumes "old \<noteq> []" and "\<not> sublist old (p @ butlast old)"
  shows "str_replace old new (p @ old @ r) = p @ new @ str_replace old new r"
  using assms(2)
proof (induction p)
  case Nil
  obtain c cs where oc: "old @ r = c # cs"
    using assms(1) by (cases "old @ r") auto
  have "prefix old (c # cs)" using oc by (metis prefixI)
  moreover have "drop (length old) (c # cs) = r" using oc by (metis append_eq_conv_conj)
  ultimately show ?case using assms(1) oc by simp
next
  case (Cons c p)
  have "\<not> prefix old ((c # p) @ old @ r)"
    using prefix_in_front [of old "c # p" r] Cons.prems by auto
  moreover have "\<not> sublist old (p @ butlast old)"
    using Cons.prems by (auto simp: sublist_Cons_right)
  ultimately show ?case using Cons.IH by simp
qed

lemma no_border:
  assumes "hd m \<notin> set (tl m)" and "\<not> sublist m p"
  shows "\<not> sublist m (p @ butlast m)"
proof
  assume "sublist m (p @ butlast m)"
  then consider "sublist m p" | "sublist m (butlast m)"
    | xs1 xs2 where "m = xs1 @ xs2" "suffix xs1 p" "prefix xs2 (butlast m)"
    by (auto simp: sublist_append)
  then show False
  proof cases
    case 1
    with assms(2) show ?thesis by simp
  next
    case 2
    then have "length m \<le> length (butlast m)" by (rule sublist_length_le)
    then have "m = []" by (cases m) (simp_all del: butlast.simps)
    with assms(2) show ?thesis by simp
  next
    case 3
    show ?thesis
    proof (cases xs2)
      case Nil
      with 3 assms(2) show ?thesis by auto
    next
      case (Cons x xs2')
      show ?thesis
      proof (cases xs1)
        case Nil
        with 3 have "prefix m (butlast m)" by simp
        then have "length m \<le> length (butlast m)" by (rule prefix_length_le)
        then have "m = []" by (cases m) (simp_all del: butlast.simps)
        with assms(2) show ?thesis by simp
      next
        case (Cons y ys)
        from 3(3) \<open>xs2 = x # xs2'\<close> obtain bs where b: "butlast m = x # bs"
          by (cases "butlast m") auto
        then have "hd m = x" by (cases m) (auto split: if_splits)
        moreover have "x \<in> set (tl m)" using 3(1) Cons \<open>xs2 = x # xs2'\<close> by auto
        ultimately show ?thesis using assms(1) by simp
      qed
    qed
  qed
qed

lemma marker_eq: "marker = [60, 47, 99, 104, 97, 110, 110, 101, 108, 62]"
  by (simp add: marker_def u_simps)

lemma marker_first:
  assumes "\<not> sublist marker p"
  shows "\<not> sublist marker (p @ butlast marker)"
proof -
  have "hd marker \<notin> set (tl marker)" by (simp add: marker_eq)
  then show ?thesis using assms by (rule no_border)
qed

lemma str_replace_marker_pieces:
  assumes "\<forall>p \<in> set ps. \<not> sublist marker p" and "\<not> sublist marker q"
  shows "str_replace marker new (concat (map (\<lambda>p. p @ marker) ps) @ q)
         = concat (map (\<lambda>p. p @ new) ps) @ q"
  using assms(1)
proof (induction ps)
  case Nil
  with assms(2) show ?case by (simp add: str_replace_absent)
next
  case (Cons p ps)
  have "marker \<noteq> []" by (simp add: marker_eq)
  moreover have "\<not> sublist marker (p @ butlast marker)"
    using Cons.prems by (simp add: marker_first)
  ultimately have "str_replace marker new (p @ marker @ (concat (map (\<lambda>p. p @ marker) ps) @ q))
      = p @ new @ str_replace marker new (concat (map (\<lambda>p. p @ marker) ps) @ q)"
    by (rule str_replace_first)
  with Cons show ?case by simp
qed

section \<open>Insertion at the closing channel marker\<close>

text \<open>
  Claim C10. \<open>append_item\<close> replaces every occurrence of the marker \<open></channel>\<close>: a
  document in which the marker occurs \<open>length ps\<close> times, with the marker-free texts
  \<open>ps\<close> in front of the occurrences and \<open>q\<close> behind the last one, gets the fragment,
  a line break and two spaces in front of each occurrence. So the fragment is
  inserted once exactly when the marker occurs once, and a document without the
  marker is refused.
\<close>

theorem append_item_every_marker:
  assumes "\<forall>p \<in> set ps. \<not> sublist marker p" and "\<not> sublist marker q"
  shows "append_item (concat (map (\<lambda>p. p @ marker) ps) @ q) item =
    (if ps = [] then Inl (SysExitMsg (u ''Malformed appcast: missing </channel> marker''))
     else Inr (concat (map (\<lambda>p. p @ item @ u ''\<newline>  '' @ marker) ps) @ q))"
proof (cases ps)
  case Nil
  with assms(2) show ?thesis by (simp add: append_item_def)
next
  case (Cons p ps')
  then have "sublist marker (concat (map (\<lambda>p. p @ marker) ps) @ q)"
    by (simp add: sublist_append)
  moreover have "str_replace marker (item @ u ''\<newline>  '' @ marker) (concat (map (\<lambda>p. p @ marker) ps) @ q)
         = concat (map (\<lambda>p. p @ item @ u ''\<newline>  '' @ marker) ps) @ q"
    using str_replace_marker_pieces [OF assms, of "item @ u ''\<newline>  '' @ marker"] by simp
  ultimately show ?thesis using Cons by (simp add: append_item_def)
qed

theorem append_item_every_marker_witness:
  "\<not> sublist marker (u ''<a>'') \<and> \<not> sublist marker (u ''<b>'') \<and> \<not> sublist marker (u ''<c>'') \<and>
   append_item (u ''<a></channel><b></channel><c>'') (u ''I'')
     = Inr (u ''<a>I\<newline>  </channel><b>I\<newline>  </channel><c>'')"
proof -
  have h1: "\<forall>p \<in> set [u ''<a>'', u ''<b>'']. \<not> sublist marker p"
    by (simp add: marker_eq u_simps sublist_code)
  have h2: "\<not> sublist marker (u ''<c>'')"
    by (simp add: marker_eq u_simps sublist_code)
  show ?thesis
    using h1 h2 append_item_every_marker [OF h1 h2, of "u ''I''"]
    by (simp add: marker_eq u_simps)
qed

lemma list_insert_simps [simp]:
  "list_insert 0 x xs = x # xs"
  "list_insert (Suc i) x [] = [x]"
  "list_insert (Suc i) x (y # ys) = y # list_insert i x ys"
  by (simp_all add: list_insert_def)

section \<open>The composed entry\<close>









section \<open>The missing artifact\<close>




section \<open>The release notes\<close>




section \<open>The bootstrap\<close>







section \<open>Facts about the removal pattern\<close>

lemma rmatch_suffix: "rmatch ps s = Some r \<Longrightarrow> suffix r s"
proof (induction ps s rule: rmatch.induct)
  case (2 l ps s)
  then have "suffix r (drop (length l) s)" by (simp split: if_splits)
  then show ?case using suffix_drop suffix_order.trans by blast
next
  case (4 ps c cs)
  then show ?case
    by (auto split: if_splits option.splits intro: suffix_ConsI)
next
  case (6 ps c cs)
  then show ?case
    by (auto split: option.splits intro: suffix_ConsI)
qed simp_all

lemma rmatch_space_lit:
  assumes "l \<noteq> []" and "\<not> is_space (hd l)"
  shows "rmatch (SpaceStar # Lit l # ps) s = rmatch (Lit l # ps) (dropWhile is_space s)"
proof (induction s)
  case Nil
  then show ?case by simp
next
  case (Cons c cs)
  show ?case
  proof (cases "is_space c")
    case True
    then have "\<not> prefix l (c # cs)" using assms by (cases l) auto
    with True Cons show ?thesis by (simp split: option.splits)
  next
    case False
    then show ?thesis by simp
  qed
qed

lemma rmatch_lit: "rmatch (Lit l # ps) (l @ t) = rmatch ps t"
  by simp

lemma rmatch_lit_sound:
  "rmatch (Lit l # ps) s = Some r \<Longrightarrow> \<exists>t. s = l @ t \<and> rmatch ps t = Some r"
  by (auto simp: prefix_def split: if_splits)

lemma rmatch_lazy_lit_first:
  assumes "l \<noteq> []" and "\<not> sublist l (x @ butlast l)" and "rmatch qs t = Some r"
  shows "rmatch (AnyLazy # Lit l # qs) (x @ l @ t) = Some r"
  using assms(2)
proof (induction x)
  case Nil
  obtain c cs where oc: "l @ t = c # cs" using assms(1) by (cases "l @ t") auto
  have "rmatch (Lit l # qs) (l @ t) = Some r" using assms(3) by simp
  then show ?case using oc by simp
next
  case (Cons c x)
  have "\<not> prefix l ((c # x) @ l @ t)"
    using prefix_in_front [of l "c # x" t] Cons.prems by auto
  moreover have "\<not> sublist l (x @ butlast l)"
    using Cons.prems by (auto simp: sublist_Cons_right)
  ultimately show ?case using Cons.IH by simp
qed

lemma rmatch_lazy_lit_sound:
  assumes "l \<noteq> []" and "rmatch (AnyLazy # Lit l # qs) s = Some r"
  shows "\<exists>x t. s = x @ l @ t \<and> rmatch qs t = Some r"
  using assms(2)
proof (induction s)
  case Nil
  then show ?case using assms(1) by simp
next
  case (Cons c cs)
  show ?case
  proof (cases "rmatch (Lit l # qs) (c # cs)")
    case None
    with Cons.prems have "rmatch (AnyLazy # Lit l # qs) cs = Some r" by simp
    with Cons.IH obtain x t where "cs = x @ l @ t" "rmatch qs t = Some r" by blast
    then have "c # cs = (c # x) @ l @ t" by simp
    with \<open>rmatch qs t = Some r\<close> show ?thesis by blast
  next
    case (Some r')
    with Cons.prems have "r' = r" by simp
    with Some obtain t where "c # cs = l @ t" "rmatch qs t = Some r"
      using rmatch_lit_sound by blast
    then have "c # cs = [] @ l @ t" by simp
    with \<open>rmatch qs t = Some r\<close> show ?thesis by blast
  qed
qed

lemma rmatch_lazy_last_sound:
  assumes "l \<noteq> []" and "rmatch [AnyLazy, Lit l] s = Some r"
  shows "\<exists>y. s = y @ l @ r \<and> \<not> sublist l (y @ butlast l)"
  using assms(2)
proof (induction s)
  case Nil
  then show ?case using assms(1) by simp
next
  case (Cons c cs)
  have nb: "\<not> sublist l (butlast l)"
  proof
    assume "sublist l (butlast l)"
    then have "length l \<le> length (butlast l)" by (rule sublist_length_le)
    then show False using assms(1) by (cases l) (simp_all del: butlast.simps)
  qed
  show ?case
  proof (cases "rmatch [Lit l] (c # cs)")
    case None
    then have np: "\<not> prefix l (c # cs)" by (simp split: if_splits)
    from None Cons.prems have "rmatch [AnyLazy, Lit l] cs = Some r" by simp
    with Cons.IH obtain y where y: "cs = y @ l @ r" "\<not> sublist l (y @ butlast l)" by blast
    have "\<not> prefix l (c # y @ butlast l)"
    proof
      assume "prefix l (c # y @ butlast l)"
      moreover have "prefix (c # y @ butlast l) (c # cs)"
        using y(1) assms(1) by (metis append.assoc append_butlast_last_id prefix_Cons prefixI)
      ultimately have "prefix l (c # cs)" by (rule prefix_order.trans)
      then show False using np by simp
    qed
    with y(2) have "\<not> sublist l ((c # y) @ butlast l)" by (simp add: sublist_Cons_right)
    moreover have "c # cs = (c # y) @ l @ r" using y(1) by simp
    ultimately show ?thesis by blast
  next
    case (Some r')
    with Cons.prems have "r' = r" by simp
    with Some have "c # cs = l @ r" by (auto simp: prefix_def split: if_splits)
    then have "c # cs = [] @ l @ r" by simp
    with nb show ?thesis by (metis append_Nil)
  qed
qed

lemma item_open_facts:
  "u ''<item>'' \<noteq> []" "\<not> is_space (hd (u ''<item>''))"
  "u ''<title>App Detective '' \<noteq> []" "\<not> is_space (hd (u ''<title>App Detective ''))"
  "u ''</item>'' \<noteq> []" "sparkle_version_field V \<noteq> []"
  by (simp_all add: u_simps is_space_def sparkle_version_field_def)

lemma item_pattern_field:
  "item_pattern V =
     [SpaceStar, Lit (u ''<item>''), SpaceStar, Lit (u ''<title>App Detective ''), AnyLazy,
      Lit (sparkle_version_field V), AnyLazy, Lit (u ''</item>'')]"
  by (simp add: item_pattern_def sparkle_version_field_def)

lemma item_pattern_sound:
  assumes "rmatch (item_pattern V) s = Some r"
  shows "\<exists>w1 w2 x y. s = w1 @ u ''<item>'' @ w2 @ u ''<title>App Detective '' @ x
            @ sparkle_version_field V @ y @ u ''</item>'' @ r
          \<and> \<not> sublist (u ''</item>'') (y @ butlast (u ''</item>''))"
proof -
  let ?I = "u ''<item>''" and ?T = "u ''<title>App Detective ''" and ?E = "u ''</item>''"
  let ?F = "sparkle_version_field V"
  let ?p2 = "[AnyLazy, Lit ?F, AnyLazy, Lit ?E]"
  have "rmatch (Lit ?I # SpaceStar # Lit ?T # ?p2) (dropWhile is_space s) = Some r"
    using assms rmatch_space_lit [OF item_open_facts(1,2)] by (simp add: item_pattern_field)
  then obtain t1 where t1: "dropWhile is_space s = ?I @ t1"
    and m1: "rmatch (SpaceStar # Lit ?T # ?p2) t1 = Some r"
    using rmatch_lit_sound by blast
  have "rmatch (Lit ?T # ?p2) (dropWhile is_space t1) = Some r"
    using m1 rmatch_space_lit [OF item_open_facts(3,4)] by simp
  then obtain t2 where t2: "dropWhile is_space t1 = ?T @ t2"
    and m2: "rmatch (AnyLazy # Lit ?F # [AnyLazy, Lit ?E]) t2 = Some r"
    using rmatch_lit_sound by blast
  from rmatch_lazy_lit_sound [OF item_open_facts(6) m2]
  obtain x t3 where t3: "t2 = x @ ?F @ t3" and m3: "rmatch [AnyLazy, Lit ?E] t3 = Some r"
    by blast
  from rmatch_lazy_last_sound [OF item_open_facts(5) m3]
  obtain y where y: "t3 = y @ ?E @ r" "\<not> sublist ?E (y @ butlast ?E)" by blast
  have "s = takeWhile is_space s @ dropWhile is_space s" by simp
  also have "\<dots> = takeWhile is_space s @ ?I @ takeWhile is_space t1 @ dropWhile is_space t1"
    using t1 by simp
  also have "\<dots> = takeWhile is_space s @ ?I @ takeWhile is_space t1 @ ?T @ x @ ?F @ y @ ?E @ r"
    using t2 t3 y(1) by simp
  finally show ?thesis using y(2) by blast
qed

lemma item_pattern_complete:
  assumes "\<forall>c \<in> set w2. is_space c"
    and "\<not> sublist (sparkle_version_field V) (x @ butlast (sparkle_version_field V))"
    and "\<not> sublist (u ''</item>'') (y @ butlast (u ''</item>''))"
  shows "rmatch (item_pattern V)
           (u ''<item>'' @ w2 @ u ''<title>App Detective '' @ x
            @ sparkle_version_field V @ y @ u ''</item>'' @ r) = Some r"
proof -
  let ?I = "u ''<item>''" and ?T = "u ''<title>App Detective ''" and ?E = "u ''</item>''"
  let ?F = "sparkle_version_field V"
  let ?p2 = "[AnyLazy, Lit ?F, AnyLazy, Lit ?E]"
  have d1: "dropWhile is_space (?I @ t) = ?I @ t" for t
    using item_open_facts(1,2) by (cases ?I) auto
  have d2: "dropWhile is_space (w2 @ ?T @ t) = ?T @ t" for t
  proof -
    have "dropWhile is_space (w2 @ ?T @ t) = dropWhile is_space (?T @ t)"
      using assms(1) by (simp add: dropWhile_append2)
    also have "\<dots> = ?T @ t" using item_open_facts(3,4) by (cases ?T) auto
    finally show ?thesis .
  qed
  have l: "rmatch [AnyLazy, Lit ?E] (y @ ?E @ r) = Some r"
    using rmatch_lazy_lit_first [OF item_open_facts(5) assms(3), of "[]" r r] by simp
  have f: "rmatch ?p2 (x @ ?F @ y @ ?E @ r) = Some r"
    using rmatch_lazy_lit_first [OF item_open_facts(6) assms(2) l] by simp
  have "rmatch (item_pattern V) (?I @ w2 @ ?T @ x @ ?F @ y @ ?E @ r)
        = rmatch (Lit ?I # SpaceStar # Lit ?T # ?p2) (?I @ w2 @ ?T @ x @ ?F @ y @ ?E @ r)"
    using rmatch_space_lit [OF item_open_facts(1,2)] by (simp add: item_pattern_field d1)
  also have "\<dots> = rmatch (SpaceStar # Lit ?T # ?p2) (w2 @ ?T @ x @ ?F @ y @ ?E @ r)"
    by (rule rmatch_lit)
  also have "\<dots> = rmatch (Lit ?T # ?p2) (?T @ x @ ?F @ y @ ?E @ r)"
    using rmatch_space_lit [OF item_open_facts(3,4)] by (simp add: d2)
  also have "\<dots> = rmatch ?p2 (x @ ?F @ y @ ?E @ r)"
    by (rule rmatch_lit)
  finally show ?thesis using f by simp
qed

lemma re_sub_no_match:
  assumes "\<forall>t. suffix t s \<longrightarrow> rmatch ps t = None"
  shows "re_sub_empty ps s = s"
  using assms
proof (induction s)
  case Nil
  then show ?case by simp
next
  case (Cons c cs)
  have "rmatch ps (c # cs) = None" using Cons.prems by simp
  moreover have "\<forall>t. suffix t cs \<longrightarrow> rmatch ps t = None"
    using Cons.prems by (simp add: suffix_ConsI)
  ultimately show ?case using Cons.IH by simp
qed

lemma remove_absent:
  assumes "\<not> sublist (sparkle_version_field V) s \<or> \<not> sublist (u ''<item>'') s"
  shows "remove_existing_item s V = s"
proof -
  have "rmatch (item_pattern V) t = None" if "suffix t s" for t
  proof (cases "rmatch (item_pattern V) t")
    case None
    then show ?thesis .
  next
    case (Some r)
    from item_pattern_sound [OF Some] obtain w1 w2 x y where
      "t = w1 @ u ''<item>'' @ w2 @ u ''<title>App Detective '' @ x
            @ sparkle_version_field V @ y @ u ''</item>'' @ r" by blast
    then have "sublist (sparkle_version_field V) t" and "sublist (u ''<item>'') t"
      by (metis append.assoc sublist_appendI)+
    then have "sublist (sparkle_version_field V) s" and "sublist (u ''<item>'') s"
      using that by (meson sublist_order.order_trans suffix_imp_sublist)+
    with assms show ?thesis by simp
  qed
  then show ?thesis
    unfolding remove_existing_item_def by (simp add: re_sub_no_match)
qed

lemma re_sub_keeps_tail:
  assumes ends: "\<And>t r. rmatch ps t = Some r \<Longrightarrow> \<exists>m. t = m @ E @ r"
    and "B \<noteq> []" and "hd B \<notin> set (tl E)" and "\<not> sublist E B"
  shows "\<exists>X'. re_sub_empty ps (X @ B) = X' @ B"
proof (induction "length X" arbitrary: X rule: less_induct)
  case less
  show ?case
  proof (cases X)
    case Nil
    have "rmatch ps t = None" if "suffix t B" for t
    proof (cases "rmatch ps t")
      case None
      then show ?thesis .
    next
      case (Some r)
      from ends [OF Some] obtain m where "t = m @ E @ r" by blast
      then have "sublist E t" by auto
      with that have "sublist E B"
        by (meson sublist_order.order_trans suffix_imp_sublist)
      with assms(4) show ?thesis by simp
    qed
    then have "re_sub_empty ps B = B" by (simp add: re_sub_no_match)
    with Nil show ?thesis by simp
  next
    case (Cons c X1)
    from less [of X1] Cons obtain X1' where ih1: "re_sub_empty ps (X1 @ B) = X1' @ B" by auto
    have "c # re_sub_empty ps (X1 @ B) = (c # X1') @ B" using ih1 by simp
    then have keep: "\<exists>X'. c # re_sub_empty ps (X1 @ B) = X' @ B" by blast
    show ?thesis
    proof (cases "rmatch ps (c # X1 @ B)")
      case None
      with Cons keep show ?thesis by simp
    next
      case (Some r)
      show ?thesis
      proof (cases "length r < Suc (length (X1 @ B))")
        case False
        with Some Cons keep show ?thesis by simp
      next
        case True
        from ends [OF Some] obtain m where m: "c # X1 @ B = m @ E @ r" by blast
        have "X @ B = (m @ E) @ r" using m Cons by simp
        then have sr: "suffix r (X @ B)" unfolding suffix_def by blast
        have sb: "suffix B (X @ B)" by (simp add: suffix_def)
        have "suffix B r \<or> suffix r B"
          using suffix_same_cases [OF sb sr] by blast
        then consider "suffix B r" | "suffix r B" "\<not> suffix B r" by blast
        then show ?thesis
        proof cases
          case 1
          then obtain X2 where X2: "r = X2 @ B" by (auto simp: suffix_def)
          with True Cons have "length X2 < length X" by simp
          from less [OF this] X2 obtain X' where "re_sub_empty ps r = X' @ B" by auto
          with Some True Cons show ?thesis by simp
        next
          case 2
          from 2(1) obtain B1 where B1: "B = B1 @ r" by (auto simp: suffix_def)
          have "B1 \<noteq> []" using B1 2(2) by auto
          have "(X @ B1) @ r = (m @ E) @ r" using m Cons B1 by simp
          then have "X @ B1 = m @ E" by (simp only: append_same_eq)
          then have "suffix E (X @ B1)" by (simp add: suffix_def)
          then have "suffix E B1 \<or> (\<exists>xs'. E = xs' @ B1 \<and> suffix xs' X)"
            by (simp only: suffix_append)
          moreover have "suffix E B1" if "E = [] @ B1"
            using that by (simp add: suffix_def)
          ultimately consider "suffix E B1" | xs' where "E = xs' @ B1" "xs' \<noteq> []"
            by blast
          then show ?thesis
          proof cases
            case 1
            then obtain z where "B1 = z @ E" by (auto simp: suffix_def)
            then have "B = z @ E @ r" using B1 by (simp only: append_assoc)
            then have "sublist E B" by simp
            with assms(4) show ?thesis by simp
          next
            case 2
            have "hd B = hd B1" using B1 \<open>B1 \<noteq> []\<close> by (cases B1) auto
            moreover have "hd B1 \<in> set (tl E)"
              using 2 \<open>B1 \<noteq> []\<close> by (cases xs'; cases B1) auto
            ultimately show ?thesis using assms(3) by simp
          qed
        qed
      qed
    qed
  qed
qed

section \<open>Failing runs\<close>

lemma template_keeps_marker:
  "sublist marker (remove_existing_item (base_template link) V)"
proof -
  let ?B = "u ''</link>\<newline>    <description>Release notes and downloads for App Detective.</description>\<newline>    <language>en</language>\<newline>  </channel>\<newline></rss>\<newline>''"
  let ?E = "u ''</item>''"
  have ends: "\<exists>m. t = m @ ?E @ r" if "rmatch (item_pattern V) t = Some r" for t r
  proof -
    from item_pattern_sound [OF that] obtain w1 w2 x y where
      "t = w1 @ u ''<item>'' @ w2 @ u ''<title>App Detective '' @ x
            @ sparkle_version_field V @ y @ ?E @ r" by blast
    then have "t = (w1 @ u ''<item>'' @ w2 @ u ''<title>App Detective '' @ x
            @ sparkle_version_field V @ y) @ ?E @ r" by simp
    then show ?thesis by blast
  qed
  have b1: "?B \<noteq> []" and b2: "hd ?B \<notin> set (tl ?E)"
    by (simp_all add: u_simps)
  have b3: "\<not> sublist ?E ?B"
    by (simp add: u_simps sublist_code)
  have b4: "sublist marker ?B"
  proof -
    have "?B = u ''</link>\<newline>    <description>Release notes and downloads for App Detective.</description>\<newline>    <language>en</language>\<newline>  '' @ marker @ u ''\<newline></rss>\<newline>''"
      by (simp add: u_simps marker_eq)
    then show ?thesis by (metis sublist_appendI)
  qed
  obtain X where X: "base_template link = X @ ?B"
    unfolding base_template_def by (metis append.assoc)
  from re_sub_keeps_tail [of "item_pattern V" ?E ?B X, OF ends b1 b2 b3]
  obtain X' where "re_sub_empty (item_pattern V) (X @ ?B) = X' @ ?B" by blast
  then have "remove_existing_item (base_template link) V = X' @ ?B"
    by (simp add: remove_existing_item_def X)
  with b4 show ?thesis by (simp add: sublist_append)
qed

lemma bootstrap_writes_template:
  assumes "\<not> path_exists fs p" and "ensure_base_appcast P fs p db = Inr fs1"
  shows "read_text fs1 p = Inr (base_template (rstrip_slash db @ u ''/appcast.xml''))"
  using assms
  by (auto simp: ensure_base_appcast_def write_text_def read_text_def Let_def
      split: sum.splits option.splits node.splits)

lemma bootstrap_existing:
  "path_exists fs p \<Longrightarrow> ensure_base_appcast P fs p db = Inr fs"
  by (simp add: ensure_base_appcast_def)

lemma main_failed_fs:
  assumes "raised (main P env now fs a) \<noteq> None"
  shows "fs_after (main P env now fs a)
         = (case ensure_base_appcast P fs (appcast_path_of P a) (download_base a) of
              Inl e \<Rightarrow> fs | Inr fs1 \<Rightarrow> fs1)"
  using assms
  by (auto simp: main_def Let_def failed_def split: sum.splits prod.splits)

lemma main_marker_failure:
  fixes P :: "'p platform"
  assumes "raised (main P env now fs a) = Some (SysExitMsg m)"
  shows "\<exists>fs1 notes_html sz contents.
           ensure_base_appcast P fs (appcast_path_of P a) (download_base a) = Inr fs1
         \<and> load_notes fs1 (resolve_notes_path P fs1 a) = Inr notes_html
         \<and> file_size_string P fs1 (zip_path_of P a) = Inr sz
         \<and> read_text fs1 (appcast_path_of P a) = Inr contents
         \<and> append_item (remove_existing_item contents (version a))
               (main_item env now a notes_html sz) = Inl (SysExitMsg m)"
proof -
  have e: "e \<noteq> SysExitMsg m" if "ensure_base_appcast P fs p db = Inl e" for e p db
    using that
    by (auto simp: ensure_base_appcast_def mkdir_parents_def write_text_def Let_def
        split: if_splits sum.splits option.splits node.splits)
  have l: "e \<noteq> SysExitMsg m" if "load_notes fs1 np = Inl e" for e np and fs1 :: "'p fs"
    using that
    by (auto simp: load_notes_def read_text_def
        split: if_splits sum.splits option.splits node.splits read_result.splits exn.splits)
  have f: "e \<noteq> SysExitMsg m" if "file_size_string P fs1 zp = Inl (errs, e)" for e fs1 zp errs
    using that
    by (auto simp: file_size_string_def stat_size_def
        split: if_splits sum.splits option.splits node.splits exn.splits)
  have r: "e \<noteq> SysExitMsg m" if "read_text fs1 p = Inl e" for e p and fs1 :: "'p fs"
    using that
    by (auto simp: read_text_def split: option.splits node.splits read_result.splits)
  have w: "e \<noteq> SysExitMsg m" if "write_text P fs1 p t = Inl e" for e fs1 p t
    using that
    by (auto simp: write_text_def split: option.splits node.splits)
  show ?thesis
    using assms e l f r w
    by (auto simp: main_def Let_def failed_def split: sum.splits prod.splits)
qed

text \<open>
  Claim C5. A text without the marker \<open></channel>\<close> makes \<open>append_item\<close> raise
  \<open>SystemExit\<close> with the message \<open>Malformed appcast: missing </channel> marker\<close>; a text
  with the marker makes it return. In \<open>main\<close>, when the text left by the removal has
  no marker, the run ends with that message on the error stream and the exit status
  1, and the file system is the one the run started on: the document is not
  rewritten. A run that ends with a \<open>SystemExit\<close> message is such a run.
\<close>

theorem missing_marker_is_fatal:
  fixes P :: "'p platform"
  shows
  "(\<not> sublist marker contents \<longrightarrow>
      append_item contents item
        = Inl (SysExitMsg (u ''Malformed appcast: missing </channel> marker'')))
   \<and> (sublist marker contents \<longrightarrow> (\<exists>r. append_item contents item = Inr r))
   \<and> (\<forall>fs1 notes_html sz doc.
         ensure_base_appcast P fs (appcast_path_of P a) (download_base a) = Inr fs1 \<longrightarrow>
         load_notes fs1 (resolve_notes_path P fs1 a) = Inr notes_html \<longrightarrow>
         file_size_string P fs1 (zip_path_of P a) = Inr sz \<longrightarrow>
         read_text fs1 (appcast_path_of P a) = Inr doc \<longrightarrow>
         \<not> sublist marker (remove_existing_item doc (version a)) \<longrightarrow>
           main P env now fs a
             = failed fs [] (SysExitMsg (u ''Malformed appcast: missing </channel> marker''))
           \<and> exit_status (main P env now fs a) = 1
           \<and> stderr_at_exit (main P env now fs a)
               = [u ''Malformed appcast: missing </channel> marker''])
   \<and> (\<forall>m. raised (main P env now fs a) = Some (SysExitMsg m) \<longrightarrow>
         m = u ''Malformed appcast: missing </channel> marker''
         \<and> fs_after (main P env now fs a) = fs)"
proof -
  let ?msg = "u ''Malformed appcast: missing </channel> marker''"
  let ?ap = "appcast_path_of P a"
  have same: "fs1 = fs"
    if e: "ensure_base_appcast P fs ?ap (download_base a) = Inr fs1"
      and r: "read_text fs1 ?ap = Inr doc"
      and n: "\<not> sublist marker (remove_existing_item doc (version a))"
    for fs1 doc
  proof (cases "path_exists fs ?ap")
    case True
    with e show ?thesis by (simp add: bootstrap_existing)
  next
    case False
    from bootstrap_writes_template [OF False e] r
    have "doc = base_template (rstrip_slash (download_base a) @ u ''/appcast.xml'')" by simp
    with n template_keeps_marker show ?thesis by simp
  qed
  have fwd: "main P env now fs a = failed fs [] (SysExitMsg ?msg)"
    if e: "ensure_base_appcast P fs ?ap (download_base a) = Inr fs1"
      and l: "load_notes fs1 (resolve_notes_path P fs1 a) = Inr notes_html"
      and f: "file_size_string P fs1 (zip_path_of P a) = Inr sz"
      and r: "read_text fs1 ?ap = Inr doc"
      and n: "\<not> sublist marker (remove_existing_item doc (version a))"
    for fs1 notes_html sz doc
  proof -
    have "fs1 = fs" using same [OF e r n] .
    then have e': "ensure_base_appcast P fs ?ap (download_base a) = Inr fs" using e by simp
    have l': "load_notes fs (resolve_notes_path P fs a) = Inr notes_html"
      using l \<open>fs1 = fs\<close> by simp
    have f': "file_size_string P fs (zip_path_of P a) = Inr sz"
      using f \<open>fs1 = fs\<close> by simp
    have r': "read_text fs ?ap = Inr doc"
      using r \<open>fs1 = fs\<close> by simp
    have a': "append_item (remove_existing_item doc (version a)) (main_item env now a notes_html sz)
        = Inl (SysExitMsg ?msg)"
      using n by (simp add: append_item_def)
    show ?thesis
      by (simp add: main_def Let_def e' l' f' r' a')
  qed
  have bwd: "m = ?msg \<and> fs_after (main P env now fs a) = fs"
    if m: "raised (main P env now fs a) = Some (SysExitMsg m)" for m
  proof -
    from main_marker_failure [OF m] obtain fs1 notes_html sz doc where
      e: "ensure_base_appcast P fs ?ap (download_base a) = Inr fs1"
      and r: "read_text fs1 ?ap = Inr doc"
      and ap: "append_item (remove_existing_item doc (version a))
               (main_item env now a notes_html sz) = Inl (SysExitMsg m)"
      by blast
    from ap have n: "\<not> sublist marker (remove_existing_item doc (version a))" and "m = ?msg"
      by (auto simp: append_item_def split: if_splits)
    have "fs1 = fs" using same [OF e r n] .
    moreover have "fs_after (main P env now fs a) = fs1"
      using main_failed_fs [of P env now fs a] m e by simp
    ultimately show ?thesis using \<open>m = ?msg\<close> by simp
  qed
  show ?thesis
  proof (intro conjI allI impI)
    assume "\<not> sublist marker contents"
    then show "append_item contents item = Inl (SysExitMsg ?msg)"
      by (simp add: append_item_def)
  next
    assume "sublist marker contents"
    then show "\<exists>r. append_item contents item = Inr r"
      by (simp add: append_item_def)
  next
    fix fs1 notes_html sz doc
    assume e: "ensure_base_appcast P fs ?ap (download_base a) = Inr fs1"
      and l: "load_notes fs1 (resolve_notes_path P fs1 a) = Inr notes_html"
      and f: "file_size_string P fs1 (zip_path_of P a) = Inr sz"
      and r: "read_text fs1 ?ap = Inr doc"
      and n: "\<not> sublist marker (remove_existing_item doc (version a))"
    show m: "main P env now fs a = failed fs [] (SysExitMsg ?msg)"
      using fwd [OF e l f r n] .
    show "exit_status (main P env now fs a) = 1"
      unfolding m by (simp add: exit_status_def failed_def)
    show "stderr_at_exit (main P env now fs a) = [?msg]"
      unfolding m by (simp add: stderr_at_exit_def failed_def)
  next
    fix m
    assume "raised (main P env now fs a) = Some (SysExitMsg m)"
    from bwd [OF this]
    show "m = ?msg" and "fs_after (main P env now fs a) = fs" by simp_all
  qed
qed

theorem missing_marker_is_fatal_witness:
  "\<not> sublist marker (u ''<rss></rss>'')
   \<and> append_item (u ''<rss></rss>'') (u ''I'')
       = Inl (SysExitMsg (u ''Malformed appcast: missing </channel> marker''))
   \<and> sublist marker (u ''<a></channel>'')
   \<and> (\<exists>r. append_item (u ''<a></channel>'') (u ''I'') = Inr r)
   \<and> ensure_base_appcast str_platform ex_fs_malformed (appcast_path_of str_platform ex_args)
        (download_base ex_args) = Inr ex_fs_malformed
   \<and> load_notes ex_fs_malformed (resolve_notes_path str_platform ex_fs_malformed ex_args)
       = Inr default_notes
   \<and> file_size_string str_platform ex_fs_malformed (zip_path_of str_platform ex_args)
       = Inr (str_of_nat 5242880)
   \<and> read_text ex_fs_malformed (appcast_path_of str_platform ex_args) = Inr (u ''<rss></rss>'')
   \<and> \<not> sublist marker (remove_existing_item (u ''<rss></rss>'') (version ex_args))
   \<and> raised (main str_platform Map.empty (u ''now'') ex_fs_malformed ex_args)
       = Some (SysExitMsg (u ''Malformed appcast: missing </channel> marker''))
   \<and> exit_status (main str_platform Map.empty (u ''now'') ex_fs_malformed ex_args) = 1
   \<and> fs_after (main str_platform Map.empty (u ''now'') ex_fs_malformed ex_args) = ex_fs_malformed"
proof -
  let ?msg = "u ''Malformed appcast: missing </channel> marker''"
  let ?r = "main str_platform Map.empty (u ''now'') ex_fs_malformed ex_args"
  have n1: "\<not> sublist marker (u ''<rss></rss>'')"
    by (simp add: marker_eq u_simps sublist_code)
  have n2: "sublist marker (u ''<a></channel>'')"
    by (simp add: marker_eq u_simps sublist_code)
  have e: "ensure_base_appcast str_platform ex_fs_malformed (appcast_path_of str_platform ex_args)
        (download_base ex_args) = Inr ex_fs_malformed"
    by (simp add: ensure_base_appcast_def path_exists_def ex_fs_malformed_def ex_args_def
        appcast_path_of_def str_platform_def u_simps)
  have l: "load_notes ex_fs_malformed (resolve_notes_path str_platform ex_fs_malformed ex_args)
       = Inr default_notes"
    by (simp add: load_notes_def resolve_notes_path_def strip_def path_exists_def
        ex_fs_malformed_def ex_args_def str_platform_def u_simps)
  have f: "file_size_string str_platform ex_fs_malformed (zip_path_of str_platform ex_args)
       = Inr (str_of_nat 5242880)"
    by (simp add: file_size_string_def stat_size_def ex_fs_malformed_def ex_args_def
        zip_path_of_def str_platform_def u_simps)
  have r: "read_text ex_fs_malformed (appcast_path_of str_platform ex_args) = Inr (u ''<rss></rss>'')"
    by (simp add: read_text_def ex_fs_malformed_def ex_args_def
        appcast_path_of_def str_platform_def u_simps)
  have "\<not> sublist (u ''<item>'') (u ''<rss></rss>'')"
    by (simp add: u_simps sublist_code)
  then have "remove_existing_item (u ''<rss></rss>'') (version ex_args) = u ''<rss></rss>''"
    by (simp add: remove_absent)
  with n1 have n3: "\<not> sublist marker (remove_existing_item (u ''<rss></rss>'') (version ex_args))"
    by simp
  note t = missing_marker_is_fatal
    [where P = str_platform and fs = ex_fs_malformed and a = ex_args and env = Map.empty
       and now = "u ''now''"]
  have m: "?r = failed ex_fs_malformed [] (SysExitMsg ?msg)" and x: "exit_status ?r = 1"
    using t [where contents = "[]"] e l f r n3 by blast+
  have ra: "raised ?r = Some (SysExitMsg ?msg)"
    unfolding m by (simp add: failed_def)
  have fa: "fs_after ?r = ex_fs_malformed"
    using t [where contents = "[]"] ra by blast
  have a1: "append_item (u ''<rss></rss>'') (u ''I'') = Inl (SysExitMsg ?msg)"
    using t [where contents = "u ''<rss></rss>''" and item = "u ''I''"] n1 by blast
  have a2: "\<exists>r. append_item (u ''<a></channel>'') (u ''I'') = Inr r"
    using t [where contents = "u ''<a></channel>''" and item = "u ''I''"] n2 by blast
  show ?thesis
    using n1 a1 n2 a2 e l f r n3 ra x fa by blast
qed

section \<open>What a failing run leaves\<close>










section \<open>Facts about occurrences\<close>

lemma occurrences_zero_iff:
  assumes "x \<noteq> []"
  shows "occurrences x s = 0 \<longleftrightarrow> \<not> sublist x s"
  using assms by (induction s) (auto simp: sublist_Cons_right)

lemma occurrences_suffix_le: "occurrences x s \<le> occurrences x (a @ s)"
  by (induction a) auto

lemma occurrences_at:
  assumes "x \<noteq> []"
  shows "occurrences x (x @ b) = Suc (occurrences x (tl (x @ b)))"
proof -
  obtain c cs where "x @ b = c # cs" using assms by (cases "x @ b") auto
  moreover from this have "prefix x (c # cs)" by (metis prefixI)
  ultimately show ?thesis by simp
qed

lemma occurrences_two:
  assumes "x \<noteq> []" and "d \<noteq> []" and "x @ b = d @ x @ b'"
  shows "2 \<le> occurrences x (x @ b)"
proof -
  have "1 \<le> occurrences x (x @ b')" using occurrences_at [OF assms(1), of b'] by simp
  also have "\<dots> \<le> occurrences x (tl d @ x @ b')" by (rule occurrences_suffix_le)
  also have "tl d @ x @ b' = tl (x @ b)" using assms(2,3) by (cases d) auto
  finally show ?thesis using occurrences_at [OF assms(1), of b] by simp
qed

lemma occurrences_unique:
  assumes "x \<noteq> []" and "occurrences x s = 1" and "s = a @ x @ b" and "s = a' @ x @ b'"
  shows "a = a'"
proof (rule ccontr)
  assume ne: "a \<noteq> a'"
  from assms(3,4) have "a @ x @ b = a' @ x @ b'" by simp
  then obtain d where "(a = a' @ d \<and> d @ x @ b = x @ b') \<or> (a @ d = a' \<and> x @ b = d @ x @ b')"
    using append_eq_append_conv2 [of a "x @ b" a' "x @ b'"] by blast
  then consider "a = a' @ d" "x @ b' = d @ x @ b" | "a @ d = a'" "x @ b = d @ x @ b'"
    by metis
  then show False
  proof cases
    case 1
    then have "d \<noteq> []" using ne by auto
    from occurrences_two [OF assms(1) this 1(2)]
    have "2 \<le> occurrences x (a' @ x @ b')"
      using occurrences_suffix_le [of x "x @ b'" a'] by simp
    with assms(2,4) show ?thesis by simp
  next
    case 2
    then have "d \<noteq> []" using ne by auto
    from occurrences_two [OF assms(1) this 2(2)]
    have "2 \<le> occurrences x (a @ x @ b)"
      using occurrences_suffix_le [of x "x @ b" a] by simp
    with assms(2,3) show ?thesis by simp
  qed
qed

lemma occurrences_append_space:
  assumes "x \<noteq> []" and "\<forall>c \<in> set x. \<not> is_space c" and "is_space sp"
  shows "occurrences x (a @ sp # b) = occurrences x a + occurrences x b"
proof (induction a)
  case Nil
  have "\<not> prefix x (sp # b)" using assms by (cases x) auto
  then show ?case using assms(1) by simp
next
  case (Cons c a)
  have "prefix x (c # a @ sp # b) \<longleftrightarrow> prefix x (c # a)"
  proof
    assume "prefix x (c # a @ sp # b)"
    then have "prefix x ((c # a) @ sp # b)" by simp
    then have "prefix x (c # a) \<or> (\<exists>us. x = (c # a) @ us \<and> prefix us (sp # b))"
      by (simp only: prefix_append)
    moreover have "prefix x (c # a)" if "x = (c # a) @ []"
      using that by simp
    ultimately consider "prefix x (c # a)"
      | us where "x = (c # a) @ us" "prefix us (sp # b)" "us \<noteq> []"
      by blast
    then show "prefix x (c # a)"
    proof cases
      case 1
      then show ?thesis .
    next
      case 2
      then have "sp \<in> set x" by (cases us) auto
      with assms(2,3) show ?thesis by blast
    qed
  next
    assume "prefix x (c # a)"
    then show "prefix x (c # a @ sp # b)" by (metis append_Cons prefix_prefix)
  qed
  with Cons show ?case by simp
qed

lemma first_occurrence_unique:
  assumes "\<not> sublist e (y @ butlast e)" and "\<not> sublist e (y' @ butlast e)"
    and "y @ e @ r = y' @ e @ r'"
  shows "y = y' \<and> r = r'"
proof -
  from assms(3) obtain d where
    "(y = y' @ d \<and> d @ e @ r = e @ r') \<or> (y @ d = y' \<and> e @ r = d @ e @ r')"
    using append_eq_append_conv2 [of y "e @ r" y' "e @ r'"] by blast
  then consider "y = y' @ d" "e @ r' = d @ e @ r" | "y @ d = y'" "e @ r = d @ e @ r'"
    by metis
  then have "d = []"
  proof cases
    case 1
    show ?thesis
    proof (rule ccontr)
      assume "d \<noteq> []"
      moreover have "prefix e (d @ e @ r)" using 1(2) by (metis prefixI)
      ultimately have "sublist e (d @ butlast e)" by (rule prefix_in_front [rotated])
      then have "sublist e (y' @ d @ butlast e)" by (simp add: sublist_append)
      with assms(1) 1(1) show False by simp
    qed
  next
    case 2
    show ?thesis
    proof (rule ccontr)
      assume "d \<noteq> []"
      moreover have "prefix e (d @ e @ r')" using 2(2) by (metis prefixI)
      ultimately have "sublist e (d @ butlast e)" by (rule prefix_in_front [rotated])
      then have "sublist e (y @ d @ butlast e)" by (simp add: sublist_append)
      with assms(2) 2(1) show False by auto
    qed
  qed
  with \<open>(y = y' @ d \<and> d @ e @ r = e @ r') \<or> (y @ d = y' \<and> e @ r = d @ e @ r')\<close>
  show ?thesis by auto
qed

section \<open>The removal of one entry\<close>

lemma re_sub_scan:
  assumes only: "\<And>pre2 r. suffix pre2 pre \<Longrightarrow> rmatch ps (pre2 @ m @ post) = Some r \<Longrightarrow> r = post"
    and here: "rmatch ps (m @ post) = Some post" and "m \<noteq> []"
  shows "suffix pre2 pre \<Longrightarrow>
         \<exists>p0. prefix p0 pre2 \<and> re_sub_empty ps (pre2 @ m @ post) = p0 @ re_sub_empty ps post"
proof (induction pre2)
  case Nil
  obtain c cs where cs: "m @ post = c # cs" using assms(3) by (cases "m @ post") auto
  then have "length post < Suc (length cs)"
    using assms(3) by (metis length_Cons length_append length_greater_0_conv less_add_same_cancel2 add.commute)
  with here cs have "re_sub_empty ps (m @ post) = re_sub_empty ps post" by simp
  then show ?case by simp
next
  case (Cons ch pre3)
  have s3: "suffix pre3 pre" using Cons.prems by (rule suffix_ConsD)
  from Cons.IH [OF s3] obtain p0 where
    p0: "prefix p0 pre3" "re_sub_empty ps (pre3 @ m @ post) = p0 @ re_sub_empty ps post" by blast
  show ?case
  proof (cases "rmatch ps ((ch # pre3) @ m @ post)")
    case None
    then have "re_sub_empty ps ((ch # pre3) @ m @ post) = (ch # p0) @ re_sub_empty ps post"
      using p0(2) by simp
    moreover have "prefix (ch # p0) (ch # pre3)" using p0(1) by simp
    ultimately show ?thesis by blast
  next
    case (Some r)
    then have "r = post" using only [OF Cons.prems] by blast
    moreover have "length post < Suc (length (pre3 @ m @ post))" by simp
    ultimately have "re_sub_empty ps ((ch # pre3) @ m @ post) = [] @ re_sub_empty ps post"
      using Some by simp
    moreover have "prefix [] (ch # pre3)" by simp
    ultimately show ?thesis by blast
  qed
qed

lemma remove_entry_once:
  assumes w2: "\<forall>ch \<in> set w2. is_space ch"
    and uniq: "occurrences (sparkle_version_field V) c = 1"
    and c: "c = pre @ u ''<item>'' @ w2 @ u ''<title>App Detective '' @ x
                @ sparkle_version_field V @ y @ u ''</item>'' @ post"
    and yE: "\<not> sublist (u ''</item>'') (y @ butlast (u ''</item>''))"
  shows "\<exists>p0. prefix p0 pre \<and> remove_existing_item c V = p0 @ post"
proof -
  let ?I = "u ''<item>''" and ?T = "u ''<title>App Detective ''" and ?E = "u ''</item>''"
  let ?F = "sparkle_version_field V"
  let ?m = "?I @ w2 @ ?T @ x @ ?F @ y @ ?E"
  have F: "?F \<noteq> []" by (rule item_open_facts(6))
  have c': "c = (pre @ ?I @ w2 @ ?T @ x) @ ?F @ (y @ ?E @ post)" using c by simp
  have U: "a = pre @ ?I @ w2 @ ?T @ x" if "c = a @ ?F @ b" for a b
    using occurrences_unique [OF F uniq that c'] .
  have xF: "\<not> sublist ?F (x @ butlast ?F)"
  proof
    assume "sublist ?F (x @ butlast ?F)"
    then obtain a b where ab: "x @ butlast ?F = a @ ?F @ b" by (auto simp: sublist_def)
    have "x @ ?F = (x @ butlast ?F) @ [last ?F]" using F by simp
    then have "x @ ?F = a @ ?F @ b @ [last ?F]" using ab by simp
    then have "c = (pre @ ?I @ w2 @ ?T @ a) @ ?F @ (b @ [last ?F] @ y @ ?E @ post)"
      using c by simp
    from U [OF this] have "a = x" by simp
    with ab have "butlast ?F = ?F @ b" by simp
    then have "length (butlast ?F) = length (?F @ b)" by simp
    then show False using F by (cases ?F) (simp_all del: butlast.simps)
  qed
  have postF: "\<not> sublist ?F post"
  proof
    assume "sublist ?F post"
    then obtain a b where "post = a @ ?F @ b" by (auto simp: sublist_def)
    then have "c = (pre @ ?I @ w2 @ ?T @ x @ ?F @ y @ ?E @ a) @ ?F @ b" using c by simp
    from U [OF this] have "length (pre @ ?I @ w2 @ ?T @ x @ ?F @ y @ ?E @ a)
        = length (pre @ ?I @ w2 @ ?T @ x)" by simp
    then show False using F by simp
  qed
  have here: "rmatch (item_pattern V) (?m @ post) = Some post"
    using item_pattern_complete [OF w2 xF yE, of post] by simp
  have only: "r = post"
    if s: "suffix pre2 pre" and m: "rmatch (item_pattern V) (pre2 @ ?m @ post) = Some r"
    for pre2 r
  proof -
    from s obtain pre1 where pre1: "pre = pre1 @ pre2" by (auto simp: suffix_def)
    from item_pattern_sound [OF m] obtain w1' w2' x' y' where
      d: "pre2 @ ?m @ post = w1' @ ?I @ w2' @ ?T @ x' @ ?F @ y' @ ?E @ r"
      and y': "\<not> sublist ?E (y' @ butlast ?E)" by blast
    have "c = pre1 @ (pre2 @ ?m @ post)" using c pre1 by simp
    then have c2: "c = (pre1 @ w1' @ ?I @ w2' @ ?T @ x') @ ?F @ (y' @ ?E @ r)"
      unfolding d by simp
    from U [OF c2] have "(pre1 @ w1' @ ?I @ w2' @ ?T @ x') @ ?F @ (y' @ ?E @ r)
        = (pre1 @ w1' @ ?I @ w2' @ ?T @ x') @ ?F @ (y @ ?E @ post)"
      using c2 c' by simp
    then have "y' @ ?E @ r = y @ ?E @ post" by (simp only: same_append_eq)
    from first_occurrence_unique [OF y' yE this] show ?thesis by simp
  qed
  have "?m \<noteq> []" using item_open_facts(1) by simp
  moreover have "suffix pre pre" by simp
  ultimately have "\<exists>p0. prefix p0 pre
      \<and> re_sub_empty (item_pattern V) (pre @ ?m @ post) = p0 @ re_sub_empty (item_pattern V) post"
    using only here
    by (rule re_sub_scan [where pre = pre and ps = "item_pattern V" and m = ?m and post = post
          and ?pre2.0 = pre, rotated 2])
  then obtain p0 where p0: "prefix p0 pre"
    "re_sub_empty (item_pattern V) (pre @ ?m @ post) = p0 @ re_sub_empty (item_pattern V) post"
    by auto
  have "re_sub_empty (item_pattern V) post = post"
    using remove_absent [of V post] postF by (simp add: remove_existing_item_def)
  with p0 have "remove_existing_item c V = p0 @ post"
    unfolding remove_existing_item_def c by simp
  with p0(1) show ?thesis by blast
qed

section \<open>The rerun for a version\<close>

lemma sublist_across_space:
  assumes "x \<noteq> []" and "\<forall>c \<in> set x. \<not> is_space c" and "is_space sp"
  shows "sublist x (a @ sp # b) \<longleftrightarrow> sublist x a \<or> sublist x b"
  using occurrences_append_space [OF assms, of a b]
    occurrences_zero_iff [OF assms(1)]
  by (metis add_is_0)

lemma field_no_space:
  assumes "\<forall>ch \<in> set V. \<not> is_space ch"
  shows "\<forall>c \<in> set (sparkle_version_field V). \<not> is_space c"
proof -
  have "\<forall>c \<in> set (u ''<sparkle:version>''). \<not> is_space c"
    and "\<forall>c \<in> set (u ''</sparkle:version>''). \<not> is_space c"
    by (simp_all add: u_simps is_space_def)
  with assms show ?thesis by (auto simp: sparkle_version_field_def)
qed

lemma marker_no_space: "\<forall>c \<in> set marker. \<not> is_space c"
  by (simp add: marker_eq is_space_def)

lemma field_only_in_entry:
  assumes uniq: "occurrences (sparkle_version_field V) c = 1"
    and c: "c = pre @ mid @ sparkle_version_field V @ y @ post"
  shows "\<not> sublist (sparkle_version_field V) pre" and "\<not> sublist (sparkle_version_field V) post"
proof -
  let ?F = "sparkle_version_field V"
  have F: "?F \<noteq> []" by (rule item_open_facts(6))
  have c': "c = (pre @ mid) @ ?F @ (y @ post)" using c by simp
  have U: "a = pre @ mid" if "c = a @ ?F @ b" for a b
    using occurrences_unique [OF F uniq that c'] .
  show "\<not> sublist ?F pre"
  proof
    assume "sublist ?F pre"
    then obtain a b where "pre = a @ ?F @ b" by (auto simp: sublist_def)
    then have "c = a @ ?F @ (b @ mid @ ?F @ y @ post)" using c by simp
    from U [OF this] \<open>pre = a @ ?F @ b\<close> have "length a = length (a @ ?F @ b @ mid)" by simp
    then show False using F by simp
  qed
  show "\<not> sublist ?F post"
  proof
    assume "sublist ?F post"
    then obtain a b where "post = a @ ?F @ b" by (auto simp: sublist_def)
    then have "c = (pre @ mid @ ?F @ y @ a) @ ?F @ b" using c by simp
    from U [OF this] have "length (pre @ mid @ ?F @ y @ a) = length (pre @ mid)" by simp
    then show False using F by simp
  qed
qed

lemma build_item_shape:
  "\<exists>mid. build_item V sv url sz notes ms sigs now = 32 # mid @ [10]"
proof -
  have a: "u ''    <item>\<newline>      <title>App Detective '' = 32 # u ''   <item>\<newline>      <title>App Detective ''"
    by (simp add: u_simps)
  have b: "u ''</sparkle:minimumSystemVersion>\<newline>    </item>\<newline>''
      = u ''</sparkle:minimumSystemVersion>\<newline>    </item>'' @ [10]"
    by (simp add: u_simps)
  show ?thesis
    unfolding build_item_def Let_def a b
    by (simp only: append_Cons append_assoc [symmetric]) blast
qed

lemma occurrences_skip_space:
  assumes "x \<noteq> []" and "\<forall>c \<in> set x. \<not> is_space c" and "is_space sp"
  shows "occurrences x (sp # b) = occurrences x b"
proof -
  have "\<not> prefix x (sp # b)" using assms by (cases x) auto
  then show ?thesis by simp
qed

lemma ex_item_once: "occurrences (sparkle_version_field (u ''2.0'')) ex_item = 1"
  by (simp add: ex_item_def build_item_def enclosure_attrs_def default_notes_def
      sparkle_version_field_def u_simps)

lemma ex_doc_own_once: "occurrences (sparkle_version_field (u ''2.0'')) ex_doc_own = 1"
  by (simp add: ex_doc_own_def sparkle_version_field_def marker_eq u_simps)

lemma remove_absent_title:
  assumes "\<not> sublist (u ''<title>App Detective '') s"
  shows "remove_existing_item s V = s"
proof -
  have "rmatch (item_pattern V) t = None" if "suffix t s" for t
  proof (cases "rmatch (item_pattern V) t")
    case None
    then show ?thesis .
  next
    case (Some r)
    from item_pattern_sound [OF Some] obtain w1 w2 x y where
      "t = w1 @ u ''<item>'' @ w2 @ u ''<title>App Detective '' @ x
            @ sparkle_version_field V @ y @ u ''</item>'' @ r" by blast
    then have "t = (w1 @ u ''<item>'' @ w2) @ u ''<title>App Detective '' @ (x
            @ sparkle_version_field V @ y @ u ''</item>'' @ r)" by simp
    then have "sublist (u ''<title>App Detective '') t" by (metis sublist_appendI)
    then have "sublist (u ''<title>App Detective '') s"
      using that by (meson sublist_order.order_trans suffix_imp_sublist)
    with assms show ?thesis by simp
  qed
  then show ?thesis
    unfolding remove_existing_item_def by (simp add: re_sub_no_match)
qed

lemma occurrences_around_item:
  assumes "x \<noteq> []" and "\<forall>c \<in> set x. \<not> is_space c" and "item = 32 # mid @ [10]"
  shows "occurrences x (a @ item @ b) = occurrences x a + occurrences x item + occurrences x b"
proof -
  have s32: "is_space 32" and s10: "is_space 10" by (simp_all add: is_space_def)
  have e0: "occurrences x [] = 0" using assms(1) by simp
  have "occurrences x item = occurrences x ([] @ 32 # (mid @ 10 # []))"
    using assms(3) by simp
  also have "\<dots> = occurrences x mid"
    by (simp only: occurrences_append_space [OF assms(1,2) s32]
        occurrences_append_space [OF assms(1,2) s10] e0 add_0 add_0_right)
  finally have i: "occurrences x item = occurrences x mid" .
  have "a @ item @ b = a @ 32 # (mid @ 10 # b)" using assms(3) by simp
  then have "occurrences x (a @ item @ b) = occurrences x a + (occurrences x mid + occurrences x b)"
    by (simp only: occurrences_append_space [OF assms(1,2) s32]
        occurrences_append_space [OF assms(1,2) s10])
  with i show ?thesis by simp
qed

text \<open>
  Claim C2, as stated, is about every document with an entry for the version. The
  pattern of the removal asks for a title that starts with \<open>App Detective\<close>: an
  entry for 2.0 under another product name is not removed, and the document has two
  entries for 2.0 after the update.
\<close>

theorem foreign_title_counterexample:
  "sublist (sparkle_version_field (u ''2.0'')) ex_doc_foreign
   \<and> remove_existing_item ex_doc_foreign (u ''2.0'') = ex_doc_foreign
   \<and> append_item (remove_existing_item ex_doc_foreign (u ''2.0'')) ex_item
       = Inr (u ''<rss>\<newline>  <channel>\<newline>    <item>\<newline>      <title>Detective 2.0</title>\<newline>      <sparkle:version>2.0</sparkle:version>\<newline>    </item>\<newline>  ''
              @ ex_item @ u ''\<newline>  </channel>\<newline></rss>\<newline>'')
   \<and> occurrences (sparkle_version_field (u ''2.0''))
         (u ''<rss>\<newline>  <channel>\<newline>    <item>\<newline>      <title>Detective 2.0</title>\<newline>      <sparkle:version>2.0</sparkle:version>\<newline>    </item>\<newline>  ''
              @ ex_item @ u ''\<newline>  </channel>\<newline></rss>\<newline>'') = 2"
proof -
  let ?F = "sparkle_version_field (u ''2.0'')"
  let ?A = "u ''<rss>\<newline>  <channel>\<newline>    <item>\<newline>      <title>Detective 2.0</title>\<newline>      <sparkle:version>2.0</sparkle:version>\<newline>    </item>\<newline>  ''"
  let ?B = "u ''\<newline></rss>\<newline>''"
  have d: "ex_doc_foreign = concat (map (\<lambda>p. p @ marker) [?A]) @ ?B"
    by (simp add: ex_doc_foreign_def marker_eq u_simps)
  have s: "sublist ?F ex_doc_foreign"
    by (simp add: ex_doc_foreign_def sparkle_version_field_def u_simps sublist_code)
  have "\<not> sublist (u ''<title>App Detective '') ex_doc_foreign"
    by (simp add: ex_doc_foreign_def u_simps sublist_code)
  then have r: "remove_existing_item ex_doc_foreign (u ''2.0'') = ex_doc_foreign"
    by (rule remove_absent_title)
  have mA: "\<forall>p \<in> set [?A]. \<not> sublist marker p" and mB: "\<not> sublist marker ?B"
    by (simp_all add: marker_eq u_simps sublist_code)
  have "sublist marker ex_doc_foreign" unfolding d by simp
  moreover have "str_replace marker (ex_item @ u ''\<newline>  '' @ marker) ex_doc_foreign
      = ?A @ ex_item @ u ''\<newline>  '' @ marker @ ?B"
    unfolding d using str_replace_marker_pieces [OF mA mB] by simp
  moreover have "u ''\<newline>  '' @ marker @ ?B = u ''\<newline>  </channel>\<newline></rss>\<newline>''"
    by (simp add: marker_eq u_simps)
  ultimately have a: "append_item (remove_existing_item ex_doc_foreign (u ''2.0'')) ex_item
       = Inr (?A @ ex_item @ u ''\<newline>  </channel>\<newline></rss>\<newline>'')"
    by (simp add: append_item_def r)
  have F: "?F \<noteq> []" by (rule item_open_facts(6))
  have Fs: "\<forall>c \<in> set ?F. \<not> is_space c"
    by (rule field_no_space) (simp add: u_simps is_space_def)
  obtain mid where mid: "ex_item = 32 # mid @ [10]"
    unfolding ex_item_def using build_item_shape by blast
  have oA: "occurrences ?F ?A = 1"
    by (simp add: sparkle_version_field_def u_simps)
  have oB: "occurrences ?F (u ''\<newline>  </channel>\<newline></rss>\<newline>'') = 0"
    by (simp add: sparkle_version_field_def u_simps)
  have "occurrences ?F (?A @ ex_item @ u ''\<newline>  </channel>\<newline></rss>\<newline>'') = 2"
    unfolding occurrences_around_item [OF F Fs mid] oA oB ex_item_once by simp
  with s r a show ?thesis by simp
qed

text \<open>
  Claim C2, amended. Let the document have the version field of \<open>V\<close> once, inside an
  entry in the layout of the program: \<open><item>\<close>, white space, \<open><title>App Detective\<close>,
  in front of the field, and the first \<open></item>\<close> behind the field followed by white
  space. Let the marker occur once behind the entry and not in front of it, let \<open>V\<close>
  have no white space, and let the fresh fragment have the field once. Then the
  update cuts the old entry out (with what stands between the start of the match and
  the entry), inserts the fresh fragment in front of the marker, and the result has
  the version field of \<open>V\<close> exactly once, in the fresh fragment.
\<close>

theorem rerun_leaves_one_entry:
  assumes sp: "\<forall>ch \<in> set V. \<not> is_space ch"
    and w2: "\<forall>ch \<in> set w2. is_space ch"
    and c: "c = pre @ u ''<item>'' @ w2 @ u ''<title>App Detective '' @ x
                @ sparkle_version_field V @ y @ u ''</item>'' @ q1 @ marker @ q2"
    and uniq: "occurrences (sparkle_version_field V) c = 1"
    and yE: "\<not> sublist (u ''</item>'') (y @ butlast (u ''</item>''))"
    and q1: "q1 \<noteq> []" "is_space (hd q1)"
    and mk: "\<not> sublist marker pre" "\<not> sublist marker q1" "\<not> sublist marker q2"
    and item: "item = build_item V sv url sz notes ms sigs now"
    and it1: "occurrences (sparkle_version_field V) item = 1"
  shows "\<exists>p0. prefix p0 pre
          \<and> append_item (remove_existing_item c V) item
              = Inr (p0 @ q1 @ item @ u ''\<newline>  '' @ marker @ q2)
          \<and> occurrences (sparkle_version_field V)
                (p0 @ q1 @ item @ u ''\<newline>  '' @ marker @ q2) = 1"
proof -
  let ?F = "sparkle_version_field V"
  let ?post = "q1 @ marker @ q2"
  have F: "?F \<noteq> []" by (rule item_open_facts(6))
  have Fs: "\<forall>c \<in> set ?F. \<not> is_space c" using sp by (rule field_no_space)
  have M: "marker \<noteq> []" by (simp add: marker_eq)
  obtain s q1' where q1': "q1 = s # q1'" "is_space s" using q1 by (cases q1) auto
  from remove_entry_once [OF w2 uniq c yE]
  obtain p0 where p0: "prefix p0 pre" and rm: "remove_existing_item c V = p0 @ ?post" by blast
  \<comment> \<open>the marker occurs once in what the removal leaves\<close>
  have "\<not> sublist marker p0"
    using p0 mk(1) by (meson prefix_imp_sublist sublist_order.order_trans)
  moreover have "\<not> sublist marker q1'"
    using mk(2) q1'(1) by (auto simp: sublist_Cons_right)
  ultimately have m1: "\<not> sublist marker (p0 @ q1)"
    unfolding q1'(1)
    using sublist_across_space [OF M marker_no_space q1'(2), of p0 q1'] by simp
  have "sublist marker (p0 @ ?post)" by (metis append.assoc sublist_appendI)
  moreover have "str_replace marker (item @ u ''\<newline>  '' @ marker) (p0 @ ?post)
      = p0 @ q1 @ item @ u ''\<newline>  '' @ marker @ q2"
    using str_replace_marker_pieces [of "[p0 @ q1]" q2 "item @ u ''\<newline>  '' @ marker"] m1 mk(3)
    by simp
  ultimately have ap: "append_item (remove_existing_item c V) item
      = Inr (p0 @ q1 @ item @ u ''\<newline>  '' @ marker @ q2)"
    by (simp add: append_item_def rm)
  \<comment> \<open>the version field is in the new fragment only\<close>
  have c': "c = pre @ (u ''<item>'' @ w2 @ u ''<title>App Detective '' @ x)
      @ ?F @ (y @ u ''</item>'') @ ?post" using c by simp
  from field_only_in_entry [OF uniq c']
  have "\<not> sublist ?F pre" and npost: "\<not> sublist ?F ?post" by simp_all
  then have np0: "\<not> sublist ?F p0"
    using p0 by (meson prefix_imp_sublist sublist_order.order_trans)
  have nq1: "\<not> sublist ?F q1" and nmq: "\<not> sublist ?F (marker @ q2)"
    using npost by (auto simp: sublist_append)
  have "\<not> sublist ?F q1'" using nq1 q1'(1) by (auto simp: sublist_Cons_right)
  with np0 have o1: "occurrences ?F (p0 @ q1) = 0"
    unfolding q1'(1)
    using sublist_across_space [OF F Fs q1'(2), of p0 q1'] occurrences_zero_iff [OF F] by simp
  have o3: "occurrences ?F (marker @ q2) = 0"
    using nmq occurrences_zero_iff [OF F] by simp
  obtain mid where mid: "item = 32 # mid @ [10]"
    unfolding item using build_item_shape by blast
  have s32: "is_space 32" and s10: "is_space 10" by (simp_all add: is_space_def)
  have e0: "occurrences ?F [] = 0" using F by simp
  have "occurrences ?F item = occurrences ?F ([] @ 32 # (mid @ 10 # []))"
    using mid by simp
  also have "\<dots> = occurrences ?F (mid @ 10 # [])"
    unfolding occurrences_append_space [OF F Fs s32] e0 by simp
  also have "\<dots> = occurrences ?F mid"
    unfolding occurrences_append_space [OF F Fs s10] e0 by simp
  finally have o2: "occurrences ?F mid = 1" using it1 by simp
  have "u ''\<newline>  '' @ marker @ q2 = 10 # 32 # 32 # (marker @ q2)"
    by (simp add: u_simps)
  then have tail: "occurrences ?F (u ''\<newline>  '' @ marker @ q2) = 0"
    by (simp only: occurrences_skip_space [OF F Fs s32] occurrences_skip_space [OF F Fs s10] o3)
  have "p0 @ q1 @ item @ u ''\<newline>  '' @ marker @ q2
      = (p0 @ q1) @ 32 # (mid @ 10 # (u ''\<newline>  '' @ marker @ q2))"
    using mid by simp
  then have "occurrences ?F (p0 @ q1 @ item @ u ''\<newline>  '' @ marker @ q2)
      = occurrences ?F (p0 @ q1) + (occurrences ?F mid + occurrences ?F (u ''\<newline>  '' @ marker @ q2))"
    by (simp only: occurrences_append_space [OF F Fs s32] occurrences_append_space [OF F Fs s10])
  with o1 o2 tail have "occurrences ?F (p0 @ q1 @ item @ u ''\<newline>  '' @ marker @ q2) = 1"
    by simp
  with p0 ap show ?thesis by blast
qed

theorem rerun_leaves_one_entry_witness:
  "(\<exists>p0. prefix p0 (u ''<rss>\<newline>  <channel>\<newline>    '')
      \<and> append_item (remove_existing_item ex_doc_own (u ''2.0'')) ex_item
          = Inr (p0 @ u ''\<newline>  '' @ ex_item @ u ''\<newline>  '' @ marker @ u ''\<newline></rss>\<newline>'')
      \<and> occurrences (sparkle_version_field (u ''2.0''))
            (p0 @ u ''\<newline>  '' @ ex_item @ u ''\<newline>  '' @ marker @ u ''\<newline></rss>\<newline>'') = 1)
   \<and> occurrences (sparkle_version_field (u ''2.0'')) ex_doc_own = 1
   \<and> occurrences (sparkle_version_field (u ''2.0'')) ex_item = 1"
proof -
  have sp: "\<forall>ch \<in> set (u ''2.0''). \<not> is_space ch"
    by (simp add: u_simps is_space_def)
  have w2: "\<forall>ch \<in> set (u ''\<newline>      ''). is_space ch"
    by (simp add: u_simps is_space_def)
  have c: "ex_doc_own = u ''<rss>\<newline>  <channel>\<newline>    '' @ u ''<item>'' @ u ''\<newline>      ''
      @ u ''<title>App Detective '' @ u ''2.0</title>\<newline>      ''
      @ sparkle_version_field (u ''2.0'') @ u ''\<newline>    '' @ u ''</item>''
      @ u ''\<newline>  '' @ marker @ u ''\<newline></rss>\<newline>''"
    by (simp add: ex_doc_own_def u_simps)
  have yE: "\<not> sublist (u ''</item>'') (u ''\<newline>    '' @ butlast (u ''</item>''))"
    by (simp add: u_simps sublist_code)
  have q1: "u ''\<newline>  '' \<noteq> []" "is_space (hd (u ''\<newline>  ''))"
    by (simp_all add: u_simps is_space_def)
  have mk: "\<not> sublist marker (u ''<rss>\<newline>  <channel>\<newline>    '')"
    "\<not> sublist marker (u ''\<newline>  '')" "\<not> sublist marker (u ''\<newline></rss>\<newline>'')"
    by (simp_all add: marker_eq u_simps sublist_code)
  show ?thesis
    using rerun_leaves_one_entry [OF sp w2 c ex_doc_own_once yE q1 mk ex_item_def ex_item_once]
      ex_doc_own_once ex_item_once
    by blast
qed

end
